theory Spec2Isabelle
  imports Complex_Main
begin

section \<open>Errors\<close>

text \<open>
  Go's \<open>error\<close> values, as far as the driver code under study creates or forwards them.
  \<^item> \<open>ErrInvalidPlaceholder pos\<close> is
    \<^verbatim>\<open>fmt.Errorf("invalid placeholder in template: position %d", pos)\<close> of \<open>Parse\<close>;
  \<^item> \<open>ErrTransport k\<close> is an error returned by \<open>http.Client.Do\<close> (\<open>k\<close> tells them apart);
  \<^item> \<open>ErrBodyRead k\<close> is an error of reading a response body (\<open>io.Copy\<close>);
  \<^item> \<open>ErrQuery k\<close> is an error returned by \<open>Client.Query\<close>.
\<close>

datatype error =
    ErrInvalidPlaceholder int
  | ErrTransport nat
  | ErrBodyRead nat
  | ErrQuery nat

section \<open>Template parser (template.go)\<close>

datatype templateCategory = templateVariable | templateLiteral

record templatePart =
  Text :: string
  Category :: templateCategory

text \<open>
  The regular expression of \<open>newTemplate\<close> is
  \<^verbatim>\<open>\$(?:(?P<escaped>\$)|{(?P<braced>[_a-zA-Z0-9]*)}|(?P<invalid>))\<close>.
  All characters it names are ASCII, and no byte of a multi-byte UTF-8 sequence is ASCII,
  so matching bytes is matching runes; offsets are byte offsets as in Go.

  \<open>is_name_char\<close> is the class \<^verbatim>\<open>[_a-zA-Z0-9]\<close>.
\<close>

definition is_name_char :: "char \<Rightarrow> bool" where
  "is_name_char c =
     (let n = (of_char c :: nat)
      in n = 95 \<or> (97 \<le> n \<and> n \<le> 122) \<or> (65 \<le> n \<and> n \<le> 90) \<or> (48 \<le> n \<and> n \<le> 57))"

text \<open>
  One match of the regular expression, holding what \<open>Parse\<close> reads of
  \<open>FindAllStringSubmatch\<close> (the groups' texts, \<open>[]\<close> for a group that took no part) and
  of \<open>FindAllStringSubmatchIndex\<close> (the match's bounds, and the start of the group
  \<open>invalid\<close>, \<open>-1\<close> when it took no part).
\<close>

record submatch =
  matchStartPos :: nat
  matchEndPos :: nat
  escaped :: string
  braced :: string
  invalidStartPos :: int

text \<open>
  The match that starts at a \<^verbatim>\<open>$\<close> at offset \<open>p\<close>, \<open>rest\<close> being the text after that
  \<^verbatim>\<open>$\<close>. Go's matching is leftmost-first: the alternatives are tried in order.
  The first needs a \<^verbatim>\<open>$\<close>; the second a \<^verbatim>\<open>{\<close>, the longest run of name
  characters and a \<^verbatim>\<open>}\<close> (a shorter run is followed by a name character, so
  backtracking finds nothing); the third is empty and always matches, its group
  \<open>invalid\<close> being the empty string right after the \<^verbatim>\<open>$\<close>.
\<close>

definition invalid_match :: "nat \<Rightarrow> submatch" where
  "invalid_match p =
     \<lparr>matchStartPos = p, matchEndPos = p + 1, escaped = [], braced = [],
      invalidStartPos = int p + 1\<rparr>"

definition match_at :: "nat \<Rightarrow> string \<Rightarrow> submatch" where
  "match_at p rest =
     (case rest of
        [] \<Rightarrow> invalid_match p
      | c # r \<Rightarrow>
          if c = CHR ''$'' then
            \<lparr>matchStartPos = p, matchEndPos = p + 2, escaped = ''$'', braced = [],
             invalidStartPos = - 1\<rparr>
          else if c = CHR ''{'' then
            (case dropWhile is_name_char r of
               [] \<Rightarrow> invalid_match p
             | d # _ \<Rightarrow>
                 if d = CHR ''}'' then
                   \<lparr>matchStartPos = p,
                    matchEndPos = p + 2 + length (takeWhile is_name_char r) + 1,
                    escaped = [], braced = takeWhile is_name_char r,
                    invalidStartPos = - 1\<rparr>
                 else invalid_match p)
          else invalid_match p)"

text \<open>
  \<open>FindAllStringSubmatch(text, -1)\<close>: the successive non-overlapping matches, each
  search starting where the previous match ended. \<open>findAllFrom p s\<close> searches the suffix
  \<open>s\<close> of the text that starts at offset \<open>p\<close>. Every match starts with a \<^verbatim>\<open>$\<close>, and at
  every \<^verbatim>\<open>$\<close> there is a match.
\<close>

fun findAllFrom :: "nat \<Rightarrow> string \<Rightarrow> submatch list" where
  "findAllFrom p [] = []"
| "findAllFrom p (c # cs) =
     (if c = CHR ''$'' then
        match_at p cs #
          findAllFrom (matchEndPos (match_at p cs)) (drop (matchEndPos (match_at p cs) - Suc p) cs)
      else findAllFrom (Suc p) cs)"

definition FindAllStringSubmatch :: "string \<Rightarrow> submatch list" where
  "FindAllStringSubmatch text = findAllFrom 0 text"

text \<open>Go's slice expression \<open>s[i:j]\<close>, used by \<open>Parse\<close> only with \<open>i < j \<le> len(s)\<close>.\<close>

definition slice :: "string \<Rightarrow> nat \<Rightarrow> nat \<Rightarrow> string" where
  "slice s i j = take (j - i) (drop i s)"

text \<open>
  The loop \<open>for i, m := range matches\<close> of \<open>Parse\<close>, with its state \<open>currentPosition\<close>
  and \<open>parts\<close>; the early \<open>return nil, fmt.Errorf(...)\<close> is the \<open>Inl\<close> branch.
\<close>

fun parseLoop ::
  "string \<Rightarrow> submatch list \<Rightarrow> nat \<Rightarrow> templatePart list \<Rightarrow> error + (nat \<times> templatePart list)"
where
  "parseLoop text [] currentPosition parts = Inr (currentPosition, parts)"
| "parseLoop text (m # ms) currentPosition parts =
     (if invalidStartPos m \<ge> 0 then Inl (ErrInvalidPlaceholder (invalidStartPos m))
      else
        let parts1 =
              (if currentPosition < matchStartPos m then
                 parts @ [\<lparr>Text = slice text currentPosition (matchStartPos m) @ escaped m,
                            Category = templateLiteral\<rparr>]
               else parts);
            parts2 =
              (if length (braced m) > 0 then
                 parts1 @ [\<lparr>Text = braced m, Category = templateVariable\<rparr>]
               else parts1)
        in parseLoop text ms (matchEndPos m) parts2)"

definition Parse :: "string \<Rightarrow> error + templatePart list" where
  "Parse text =
     (case parseLoop text (FindAllStringSubmatch text) 0 [] of
        Inl e \<Rightarrow> Inl e
      | Inr (currentPosition, parts) \<Rightarrow>
          Inr (if currentPosition < length text then
                 parts @ [\<lparr>Text = drop currentPosition text, Category = templateLiteral\<rparr>]
               else parts))"

section \<open>Client configuration\<close>

text \<open>
  The fields of \<open>Client\<close> that the functions below read or write. \<open>lastTxnTime\<close> is the
  \<open>Value\<close> of the embedded \<open>txnTime\<close> (an \<open>int64\<close>, microseconds); \<open>maxBackoff\<close> is a
  \<open>time.Duration\<close>, an \<open>int64\<close> count of nanoseconds. The read/write mutex of \<open>txnTime\<close>
  orders concurrent calls; a sequential model has no use for it.
\<close>

record Client =
  lastTxnTime :: int
  maxAttempts :: int
  maxBackoff :: int

definition time_Second :: int where
  "time_Second = 1000000000"

definition retryMaxAttemptsDefault :: int where
  "retryMaxAttemptsDefault = 3"

definition retryMaxBackoffDefault :: int where
  "retryMaxBackoffDefault = time_Second * 20"

text \<open>
  \<open>NewClient\<close>: the defaults (\<open>lastTxnTime: txnTime{}\<close> is the zero value), then the
  configuration functions in order.
\<close>

definition NewClient :: "(Client \<Rightarrow> Client) list \<Rightarrow> Client" where
  "NewClient configFns =
     foldl (\<lambda>client configFn. configFn client)
       \<lparr>lastTxnTime = 0, maxAttempts = retryMaxAttemptsDefault,
        maxBackoff = retryMaxBackoffDefault\<rparr>
       configFns"

section \<open>Backoff\<close>

text \<open>\<open>int64\<close> arithmetic wraps around.\<close>

definition wrap64 :: "int \<Rightarrow> int" where
  "wrap64 x = (x + 2 ^ 63) mod 2 ^ 64 - 2 ^ 63"

text \<open>\<open>math.Pow(2, float64(attempt))\<close>: a power of two, exact in \<open>float64\<close> up to \<open>2^1023\<close>.\<close>

definition pow2 :: "int \<Rightarrow> rat" where
  "pow2 n = (if 0 \<le> n then 2 ^ nat n else 1 / 2 ^ nat (- n))"

text \<open>
  The conversion \<open>time.Duration(mult)\<close> of a \<open>float64\<close> to \<open>int64\<close> discards the fraction
  (truncation towards zero); when the value does not fit, Go leaves the result to the
  implementation, which is \<open>None\<close> here.
\<close>

definition float64_to_int64 :: "rat \<Rightarrow> int option" where
  "float64_to_int64 x =
     (let t = (if 0 \<le> x then \<lfloor>x\<rfloor> else \<lceil>x\<rceil>)
      in if - (2 ^ 63) \<le> t \<and> t < 2 ^ 63 then Some t else None)"

text \<open>
  \<open>backoff\<close>, with the value \<open>jitter\<close> of \<open>rand.Float64()\<close> (a \<open>float64\<close> in \<open>[0, 1)\<close>) as
  an argument. The product of a \<open>float64\<close> and a power of two is exact, so \<open>mult\<close> is the
  rational product; beyond \<open>2^1023\<close> the power is \<open>+Inf\<close> and the conversion is left to
  the implementation. The result is a duration in nanoseconds.
\<close>

definition backoff :: "Client \<Rightarrow> rat \<Rightarrow> int \<Rightarrow> int option" where
  "backoff c jitter attempt =
     (if attempt > 1023 then None
      else
        let mult = pow2 attempt * jitter
        in case float64_to_int64 mult of
             None \<Rightarrow> None
           | Some d \<Rightarrow>
               let sleep = wrap64 (d * time_Second)
               in Some (if sleep > maxBackoff c then maxBackoff c else sleep))"

section \<open>Retrying request executor\<close>

text \<open>
  What \<open>doWithRetry\<close> reads of an \<open>http.Response\<close>: the status code, and whether
  draining the body (\<open>io.Copy(io.Discard, io.LimitReader(r.Body, 4096))\<close>) fails.
\<close>

record Response =
  StatusCode :: int
  bodyReadErr :: "error option"

definition StatusTooManyRequests :: int where
  "StatusTooManyRequests = 429"

text \<open>
  The effects of \<open>doWithRetry\<close>: \<open>sends\<close> counts the calls of \<open>c.http.Do\<close>, \<open>sleeps\<close> logs
  the arguments of \<open>time.Sleep\<close> in order, \<open>draws\<close> counts the calls of \<open>rand.Float64\<close>.
  The transport is a function from the number of earlier sends to the result of
  \<open>c.http.Do(req)\<close> (an error, with no response, or a response), the random source a
  function from the number of earlier draws to the value drawn.
\<close>

record world =
  sends :: nat
  sleeps :: "int option list"
  draws :: nat

text \<open>
  \<open>doWithRetry\<close> returns Go's \<open>(attempts, r, err)\<close>, here after the final state of the
  effects. When the transport fails, \<open>r\<close> is \<open>nil\<close>. The recursion ends because
  \<open>attemptNumber\<close> grows towards \<open>maxAttempts\<close>; \<open>attemptNumber + 1\<close> is at most
  \<open>maxAttempts + 1\<close>, which overflows Go's \<open>int\<close> only for the largest \<open>maxAttempts\<close>
  there is, after \<open>2^63\<close> sends.
\<close>

function doWithRetry ::
  "Client \<Rightarrow> (nat \<Rightarrow> error + Response) \<Rightarrow> (nat \<Rightarrow> rat) \<Rightarrow> world \<Rightarrow> int \<Rightarrow>
     world \<times> int \<times> Response option \<times> error option"
where
  "doWithRetry c transport jitter w attemptNumber =
     (case transport (sends w) of
        Inl err \<Rightarrow> (w\<lparr>sends := Suc (sends w)\<rparr>, attemptNumber, None, Some err)
      | Inr r \<Rightarrow>
          if attemptNumber \<le> maxAttempts c \<and> StatusCode r = StatusTooManyRequests then
            (case bodyReadErr r of
               Some err \<Rightarrow> (w\<lparr>sends := Suc (sends w)\<rparr>, attemptNumber, Some r, Some err)
             | None \<Rightarrow>
                 (case doWithRetry c transport jitter
                         (w\<lparr>sends := Suc (sends w),
                            sleeps := sleeps w @ [backoff c (jitter (draws w)) attemptNumber],
                            draws := Suc (draws w)\<rparr>)
                         (attemptNumber + 1) of
                    (w', _, r', err') \<Rightarrow> (w', attemptNumber, r', err')))
          else (w\<lparr>sends := Suc (sends w)\<rparr>, attemptNumber, Some r, None))"
  by pat_completeness auto
termination
  by (relation "measure (\<lambda>(c, transport, jitter, w, attemptNumber).
        nat (maxAttempts c + 1 - attemptNumber))") auto

declare doWithRetry.simps [simp del]

section \<open>Transaction-time tracker\<close>

text \<open>
  \<open>SetLastTxnTime\<close>, with \<open>val\<close> the value of \<open>txnTime.UnixMicro()\<close>. Only comparison and
  assignment happen to these \<open>int64\<close> values, so no arithmetic can overflow.
\<close>

definition SetLastTxnTime :: "Client \<Rightarrow> int \<Rightarrow> Client" where
  "SetLastTxnTime c val = (if val > lastTxnTime c then c\<lparr>lastTxnTime := val\<rparr> else c)"

definition GetLastTxnTime :: "Client \<Rightarrow> int" where
  "GetLastTxnTime c = lastTxnTime c"

text \<open>
  \<open>atomic.CompareAndSwapInt64\<close> on a cell holding \<open>v\<close>: the new content and whether the
  swap happened.
\<close>

definition CompareAndSwapInt64 :: "int \<Rightarrow> int \<Rightarrow> int \<Rightarrow> int \<times> bool" where
  "CompareAndSwapInt64 v old new = (if v = old then (new, True) else (v, False))"

text \<open>
  \<open>txnTime.sync\<close>, on the content \<open>v\<close> of \<open>t.Value\<close>: the loop runs under the write lock,
  so nothing changes the cell between the load and the swap.
\<close>

function sync :: "int \<Rightarrow> int \<Rightarrow> int" where
  "sync v newTxnTime =
     (if v \<ge> newTxnTime then v
      else if snd (CompareAndSwapInt64 v v newTxnTime)
        then fst (CompareAndSwapInt64 v v newTxnTime)
        else sync (fst (CompareAndSwapInt64 v v newTxnTime)) newTxnTime)"
  by pat_completeness auto
termination
  by (relation "{}") (auto simp: CompareAndSwapInt64_def)

declare sync.simps [simp del]

section \<open>Page iterator\<close>

text \<open>
  Go's \<open>any\<close>, as far as \<open>QueryIterator.Next\<close> tells values apart by type assertion:
  a \<open>string\<close>, a \<open>[]any\<close>, a \<open>map[string]any\<close> (an association list, the first entry of a
  key counting), a \<open>*Page\<close> (its \<open>After\<close> and \<open>Data\<close>), and values of other types.
\<close>

datatype any =
    AString string
  | ASeq "any list"
  | AMap "(string \<times> any) list"
  | APage string "any list"
  | AOther nat

record Page =
  After :: string
  Data :: "any list"

text \<open>
  Modelled from the spec: the type \<open>Query\<close> and the function \<open>FQL\<close>, which \<open>nextPage\<close>
  calls and another file of the package defines. The spec has a query built from a textual
  template with embedded parameters, the template parser turning the template into
  parts, and template parse errors reported before any network call. So a query is the
  parts of its template with its arguments, and \<open>FQL\<close> fails when \<open>Parse\<close> does.
\<close>

record Query =
  queryParts :: "templatePart list"
  queryArgs :: "(string \<times> any) list"

definition FQL :: "string \<Rightarrow> (string \<times> any) list \<Rightarrow> error + Query" where
  "FQL query args =
     (case Parse query of
        Inl err \<Rightarrow> Inl err
      | Inr parts \<Rightarrow> Inr \<lparr>queryParts = parts, queryArgs = args\<rparr>)"

text \<open>
  The state of a \<open>QueryIterator\<close> is its \<open>fql\<close>, a pointer that may be \<open>nil\<close>. Its client
  and options are fixed; \<open>q.client.Query(q.fql, q.opts...)\<close> is the argument \<open>clientQuery\<close>
  of \<open>Next\<close>, giving an error or the \<open>Data\<close> of the \<open>QuerySuccess\<close>. The function \<open>FQL\<close>
  that \<open>nextPage\<close> calls is the argument \<open>fqlFn\<close>, so that what is proved of the
  iterator holds whatever \<open>FQL\<close> does; with an error it returns no query.
\<close>

record QueryIterator =
  fql :: "Query option"

definition Paginate :: "Query option \<Rightarrow> QueryIterator" where
  "Paginate fql0 = \<lparr>fql = fql0\<rparr>"

definition nextPage ::
  "(string \<Rightarrow> (string \<times> any) list \<Rightarrow> error + Query) \<Rightarrow> QueryIterator \<Rightarrow> string \<Rightarrow>
     QueryIterator \<times> error option"
where
  "nextPage fqlFn q after =
     (if after = [] then (q\<lparr>fql := None\<rparr>, None)
      else
        (case fqlFn ''Set.paginate(${after})'' [(''after'', AString after)] of
           Inl fqlErr \<Rightarrow> (q\<lparr>fql := None\<rparr>, Some fqlErr)
         | Inr query \<Rightarrow> (q\<lparr>fql := Some query\<rparr>, None)))"

text \<open>A call either panics or returns.\<close>

datatype 'a outcome = Panic | Return 'a

text \<open>
  \<open>Next\<close> returns the iterator's new state with Go's \<open>(*Page, error)\<close>. The type assertion
  \<open>results["data"].([]any)\<close> has no \<open>ok\<close> result: it panics unless the key is there with a
  \<open>[]any\<close>; \<open>results["after"].(string)\<close> has one and does not. \<open>finishPage\<close> is the
  end that the branches of \<open>Next\<close> share: \<open>nextPage\<close>, then the page or the error.
\<close>

definition finishPage ::
  "(string \<Rightarrow> (string \<times> any) list \<Rightarrow> error + Query) \<Rightarrow> QueryIterator \<Rightarrow> Page \<Rightarrow>
     (QueryIterator \<times> (error + Page)) outcome"
where
  "finishPage fqlFn q page =
     (case nextPage fqlFn q (After page) of
        (q', Some pageErr) \<Rightarrow> Return (q', Inl pageErr)
      | (q', None) \<Rightarrow> Return (q', Inr page))"

definition Next ::
  "(string \<Rightarrow> (string \<times> any) list \<Rightarrow> error + Query) \<Rightarrow> (Query option \<Rightarrow> error + any) \<Rightarrow>
     QueryIterator \<Rightarrow> (QueryIterator \<times> (error + Page)) outcome"
where
  "Next fqlFn clientQuery q =
     (case clientQuery (fql q) of
        Inl queryErr \<Rightarrow> Return (q, Inl queryErr)
      | Inr resData \<Rightarrow>
          (case resData of
             APage after items \<Rightarrow> finishPage fqlFn q \<lparr>After = after, Data = items\<rparr>
           | AMap results \<Rightarrow>
               (case map_of results ''after'' of
                  Some (AString after) \<Rightarrow>
                    (case map_of results ''data'' of
                       Some (ASeq items) \<Rightarrow> finishPage fqlFn q \<lparr>After = after, Data = items\<rparr>
                     | _ \<Rightarrow> Panic)
                | _ \<Rightarrow>
                    (case map_of results ''data'' of
                       Some (ASeq items) \<Rightarrow> finishPage fqlFn q \<lparr>After = [], Data = items\<rparr>
                     | _ \<Rightarrow> Panic))
           | _ \<Rightarrow> finishPage fqlFn q \<lparr>After = [], Data = [resData]\<rparr>))"

definition HasNext :: "QueryIterator \<Rightarrow> bool" where
  "HasNext q = (fql q \<noteq> None)"

section \<open>Transports, starting states and auxiliary notions for the properties\<close>

text \<open>A transport that answers every send with status 429 and a body that drains.\<close>

definition always429 :: "nat \<Rightarrow> error + Response" where
  "always429 k = Inr \<lparr>StatusCode = 429, bodyReadErr = None\<rparr>"

text \<open>A transport whose first answer is a 429 and whose every later send fails.\<close>

definition throttled_then_down :: "nat \<Rightarrow> error + Response" where
  "throttled_then_down k =
     (if k = 0 then Inr \<lparr>StatusCode = 429, bodyReadErr = None\<rparr> else Inl (ErrTransport 7))"

text \<open>The effects before the first send.\<close>

definition world0 :: world where
  "world0 = \<lparr>sends = 0, sleeps = [], draws = 0\<rparr>"

text \<open>
  How many retries \<open>doWithRetry\<close> makes from attempt \<open>n\<close> on when every answer is a 429.
\<close>

definition retries_left :: "Client \<Rightarrow> int \<Rightarrow> nat" where
  "retries_left c n = (if n \<le> maxAttempts c then nat (maxAttempts c - n) + 1 else 0)"

text \<open>
  What the result \<open>res\<close> of \<open>doWithRetry c transport jitter w n\<close> owes to its send number
  \<open>k\<close>: a failed send is the last one and its error is the result; an answer followed by
  another send was a 429 at an attempt within the ceiling; the last answer is returned,
  with an error only when draining a 429 within the ceiling failed.
\<close>

definition send_ok ::
  "Client \<Rightarrow> (nat \<Rightarrow> error + Response) \<Rightarrow> world \<Rightarrow> int \<Rightarrow>
     world \<times> int \<times> Response option \<times> error option \<Rightarrow> nat \<Rightarrow> bool" where
  "send_ok c transport w n res k =
     (case res of (w', a, r', err') \<Rightarrow>
       (case transport k of
          Inl e \<Rightarrow> sends w' = Suc k \<and> r' = None \<and> err' = Some e
        | Inr r \<Rightarrow>
            (if Suc k < sends w'
             then StatusCode r = 429 \<and> n + int (k - sends w) \<le> maxAttempts c
             else r' = Some r \<and>
                  (if StatusCode r = 429 \<and> n + int (k - sends w) \<le> maxAttempts c
                   then err' = bodyReadErr r \<and> err' \<noteq> None else err' = None))))"

text \<open>
  A single pass over the template, which the properties below reason with: \<open>scan p lit s\<close>
  reads the suffix \<open>s\<close> that starts at offset \<open>p\<close>, \<open>lit\<close> being the text read since the last
  match, and returns the parts emitted with the text left after the last match.
  \<open>finish\<close> turns that text into the final literal part. Lemma \<open>Parse_scan\<close> shows that
  \<open>Parse\<close> computes the same.
\<close>

fun scan :: "nat \<Rightarrow> string \<Rightarrow> string \<Rightarrow> error + (templatePart list \<times> string)" where
  "scan p lit [] = Inr ([], lit)"
| "scan p lit (c # cs) =
     (if c = CHR ''$'' then
        (if invalidStartPos (match_at p cs) \<ge> 0
         then Inl (ErrInvalidPlaceholder (invalidStartPos (match_at p cs)))
         else
           (case scan (matchEndPos (match_at p cs)) []
                   (drop (matchEndPos (match_at p cs) - Suc p) cs) of
              Inl e \<Rightarrow> Inl e
            | Inr (ps, lit') \<Rightarrow>
                Inr ((if lit = [] then []
                      else [\<lparr>Text = lit @ escaped (match_at p cs), Category = templateLiteral\<rparr>]) @
                     (if braced (match_at p cs) = [] then []
                      else [\<lparr>Text = braced (match_at p cs), Category = templateVariable\<rparr>]) @
                     ps, lit')))
      else scan (Suc p) (lit @ [c]) cs)"

definition finish :: "templatePart list \<times> string \<Rightarrow> templatePart list" where
  "finish r = fst r @ (if snd r = [] then [] else [\<lparr>Text = snd r, Category = templateLiteral\<rparr>])"

text \<open>
  The end of \<open>Parse\<close>, after its loop.
\<close>

definition finishParse :: "string \<Rightarrow> error + (nat \<times> templatePart list) \<Rightarrow> error + templatePart list" where
  "finishParse text r =
     (case r of
        Inl e \<Rightarrow> Inl e
      | Inr (currentPosition, parts) \<Rightarrow>
          Inr (if currentPosition < length text then
                 parts @ [\<lparr>Text = drop currentPosition text, Category = templateLiteral\<rparr>]
               else parts))"

text \<open>
  The text after a \<^verbatim>\<open>$\<close> continues a valid form: another \<^verbatim>\<open>$\<close>, or \<^verbatim>\<open>{\<close>, a name and
  \<^verbatim>\<open>}\<close>.
\<close>

definition valid_after_dollar :: "string \<Rightarrow> bool" where
  "valid_after_dollar rest =
     ((\<exists>r. rest = CHR ''$'' # r) \<or>
      (\<exists>name r. rest = CHR ''{'' # name @ CHR ''}'' # r \<and> list_all is_name_char name))"

text \<open>
  The query that \<open>nextPage\<close> asks \<open>FQL\<close> for, a first query, and a client whose answers to
  them are pages with the cursors \<open>a\<close>, \<open>b\<close> and none.
\<close>

definition paginate_query :: "string \<Rightarrow> Query" where
  "paginate_query after =
     \<lparr>queryParts =
        [\<lparr>Text = ''Set.paginate('', Category = templateLiteral\<rparr>,
         \<lparr>Text = ''after'', Category = templateVariable\<rparr>,
         \<lparr>Text = '')'', Category = templateLiteral\<rparr>],
      queryArgs = [(''after'', AString after)]\<rparr>"

definition first_query :: Query where
  "first_query =
     \<lparr>queryParts = [\<lparr>Text = ''Collection.all()'', Category = templateLiteral\<rparr>],
      queryArgs = []\<rparr>"

definition three_pages :: "Query option \<Rightarrow> error + any" where
  "three_pages query =
     (if query = Some first_query then Inr (APage ''a'' [AOther 1])
      else if query = Some (paginate_query ''a'') then
        Inr (AMap [(''data'', ASeq [AOther 2]), (''after'', AString ''b'')])
      else if query = Some (paginate_query ''b'') then
        Inr (AMap [(''data'', ASeq [AOther 3])])
      else Inl (ErrQuery 0))"

section \<open>Properties of the template parser\<close>

lemma match_at_start: "matchStartPos (match_at p cs) = p"
  by (simp add: match_at_def invalid_match_def split: list.splits)

lemma match_at_end_bounds:
  "Suc p \<le> matchEndPos (match_at p cs) \<and>
   (invalidStartPos (match_at p cs) < 0 \<longrightarrow> matchEndPos (match_at p cs) - Suc p \<le> length cs)"
proof (cases cs)
  case Nil
  then show ?thesis by (simp add: match_at_def invalid_match_def)
next
  case (Cons c r)
  have "length (takeWhile is_name_char r) + length (dropWhile is_name_char r) = length r"
    by (metis length_append takeWhile_dropWhile_id)
  then have "dropWhile is_name_char r = d # ds \<Longrightarrow> Suc (length (takeWhile is_name_char r)) \<le> length r" for d ds
    by simp
  with Cons show ?thesis
    by (auto simp: match_at_def invalid_match_def split: list.splits)
qed

lemma finish_append: "finish (xs @ ps, l) = xs @ finish (ps, l)"
  by (simp add: finish_def)

lemma parseLoop_scan:
  "text = pre0 @ s \<Longrightarrow> p = length pre0 \<Longrightarrow> cur \<le> p \<Longrightarrow>
     finishParse text (parseLoop text (findAllFrom p s) cur parts) =
       (case scan p (drop cur pre0) s of Inl e \<Rightarrow> Inl e | Inr r \<Rightarrow> Inr (parts @ finish r))"
proof (induction p s arbitrary: pre0 cur parts rule: findAllFrom.induct)
  case (1 p)
  then show ?case
    by (auto simp: finishParse_def finish_def)
next
  case (2 p c cs)
  show ?case
  proof (cases "c = CHR ''$''")
    case False
    have "finishParse text (parseLoop text (findAllFrom (Suc p) cs) cur parts) =
       (case scan (Suc p) (drop cur (pre0 @ [c])) cs of
          Inl e \<Rightarrow> Inl e | Inr r \<Rightarrow> Inr (parts @ finish r))"
      using "2.prems" by (intro "2.IH"(2)[OF False]) auto
    with False "2.prems" show ?thesis by simp
  next
    case True
    define m where "m = match_at p cs"
    show ?thesis
    proof (cases "invalidStartPos m \<ge> 0")
      case inv: True
      with True show ?thesis
        by (simp add: m_def[symmetric] finishParse_def)
    next
      case valid: False
      define k where "k = matchEndPos m - Suc p"
      have kb: "k \<le> length cs" and eb: "Suc p \<le> matchEndPos m"
        using match_at_end_bounds[of p cs] valid by (auto simp: m_def k_def)
      define parts2 where "parts2 =
        parts @
        (if drop cur pre0 = [] then []
         else [\<lparr>Text = drop cur pre0 @ escaped m, Category = templateLiteral\<rparr>]) @
        (if braced m = [] then [] else [\<lparr>Text = braced m, Category = templateVariable\<rparr>])"
      have sl: "slice text cur p = drop cur pre0"
        using "2.prems" by (simp add: slice_def)
      have step: "parseLoop text (m # findAllFrom (matchEndPos m) (drop k cs)) cur parts =
                  parseLoop text (findAllFrom (matchEndPos m) (drop k cs)) (matchEndPos m) parts2"
        using valid "2.prems" sl
        by (auto simp: Let_def parts2_def m_def match_at_start)
      have ih: "finishParse text
                  (parseLoop text (findAllFrom (matchEndPos m) (drop k cs)) (matchEndPos m) parts2) =
                (case scan (matchEndPos m) (drop (matchEndPos m) (pre0 @ CHR ''$'' # take k cs))
                        (drop k cs) of
                   Inl e \<Rightarrow> Inl e | Inr r \<Rightarrow> Inr (parts2 @ finish r))"
        unfolding m_def k_def
        apply (rule "2.IH"(1)[OF True])
        using "2.prems" True kb eb
        by (auto simp: m_def k_def)
      have d0: "drop (matchEndPos m) (pre0 @ CHR ''$'' # take k cs) = []"
        using "2.prems" kb eb by (simp add: k_def)
      have lhs: "findAllFrom p (c # cs) = m # findAllFrom (matchEndPos m) (drop k cs)"
        using True by (simp add: m_def k_def)
      have rhs: "scan p (drop cur pre0) (c # cs) =
        (case scan (matchEndPos m) [] (drop k cs) of
           Inl e \<Rightarrow> Inl e
         | Inr (ps, lit') \<Rightarrow>
             Inr ((if drop cur pre0 = [] then []
                   else [\<lparr>Text = drop cur pre0 @ escaped m, Category = templateLiteral\<rparr>]) @
                  (if braced m = [] then []
                   else [\<lparr>Text = braced m, Category = templateVariable\<rparr>]) @
                  ps, lit'))"
        using True valid unfolding m_def k_def by simp
      show ?thesis
        unfolding lhs rhs step ih d0
        by (cases "scan (matchEndPos m) [] (drop k cs)")
           (auto simp: parts2_def finish_def)
    qed
  qed
qed

lemma Parse_scan:
  "Parse text = (case scan 0 [] text of Inl e \<Rightarrow> Inl e | Inr r \<Rightarrow> Inr (finish r))"
proof -
  have "finishParse text (parseLoop text (findAllFrom 0 text) 0 []) =
          (case scan 0 [] text of Inl e \<Rightarrow> Inl e | Inr r \<Rightarrow> Inr ([] @ finish r))"
    using parseLoop_scan[of "text" "[]" "text" 0 0 "[]"] by simp
  then show ?thesis
    by (cases "scan 0 [] text")
       (simp_all add: Parse_def FindAllStringSubmatch_def finishParse_def)
qed

lemma not_name_char_brace: "\<not> is_name_char CHR ''}''"
  by (simp add: is_name_char_def)

lemma match_at_braced:
  assumes "list_all is_name_char name"
  shows "match_at p (CHR ''{'' # name @ CHR ''}'' # post) =
     \<lparr>matchStartPos = p, matchEndPos = p + 2 + length name + 1, escaped = [],
      braced = name, invalidStartPos = - 1\<rparr>"
proof -
  have all: "\<And>x. x \<in> set name \<Longrightarrow> is_name_char x"
    using assms by (simp add: list_all_iff)
  have d: "dropWhile is_name_char (name @ CHR ''}'' # post) = CHR ''}'' # post"
    using all by (simp add: dropWhile_append2 not_name_char_brace)
  have t: "takeWhile is_name_char (name @ CHR ''}'' # post) = name"
    using all by (simp add: takeWhile_append2 not_name_char_brace)
  show ?thesis
    by (simp add: match_at_def d t)
qed

lemma match_at_invalid:
  assumes "\<not> valid_after_dollar rest"
  shows "match_at p rest = invalid_match p"
proof (cases rest)
  case Nil
  then show ?thesis by (simp add: match_at_def)
next
  case (Cons c r)
  have c1: "c \<noteq> CHR ''$''"
    using assms Cons by (auto simp: valid_after_dollar_def)
  have c2: "dropWhile is_name_char r \<noteq> CHR ''}'' # ds" if "c = CHR ''{''" for ds
  proof
    assume d: "dropWhile is_name_char r = CHR ''}'' # ds"
    have "r = takeWhile is_name_char r @ CHR ''}'' # ds"
      using takeWhile_dropWhile_id[of is_name_char r] d by simp
    moreover have "list_all is_name_char (takeWhile is_name_char r)"
      by (simp add: list_all_iff) (meson set_takeWhileD)
    ultimately have "valid_after_dollar rest"
      unfolding valid_after_dollar_def using Cons that by blast
    with assms show False by simp
  qed
  show ?thesis
    using Cons c1 c2 by (auto simp: match_at_def split: list.splits)
qed

lemma match_at_valid:
  assumes "valid_after_dollar cs"
  shows "(\<exists>r. cs = CHR ''$'' # r \<and>
            (\<forall>p. match_at p cs =
               \<lparr>matchStartPos = p, matchEndPos = p + 2, escaped = ''$'', braced = [],
                invalidStartPos = - 1\<rparr>)) \<or>
         (\<exists>name r. cs = CHR ''{'' # name @ CHR ''}'' # r \<and> list_all is_name_char name \<and>
            (\<forall>p. match_at p cs =
               \<lparr>matchStartPos = p, matchEndPos = p + 2 + length name + 1, escaped = [],
                braced = name, invalidStartPos = - 1\<rparr>))"
proof (cases "\<exists>r. cs = CHR ''$'' # r")
  case True
  then show ?thesis by (auto simp: match_at_def)
next
  case False
  with assms obtain name r where
    "cs = CHR ''{'' # name @ CHR ''}'' # r" "list_all is_name_char name"
    unfolding valid_after_dollar_def by blast
  then show ?thesis using match_at_braced by blast
qed

lemma match_at_valid_iff:
  "(invalidStartPos (match_at p cs) < 0) = valid_after_dollar cs"
proof (cases "valid_after_dollar cs")
  case True
  then show ?thesis using match_at_valid[OF True] by auto
next
  case False
  then show ?thesis by (simp add: match_at_invalid invalid_match_def)
qed

lemma match_at_shift:
  "escaped (match_at p cs) = escaped (match_at q cs) \<and>
   braced (match_at p cs) = braced (match_at q cs) \<and>
   (0 \<le> invalidStartPos (match_at p cs)) = (0 \<le> invalidStartPos (match_at q cs)) \<and>
   matchEndPos (match_at p cs) - Suc p = matchEndPos (match_at q cs) - Suc q"
proof (cases "valid_after_dollar cs")
  case True
  then show ?thesis using match_at_valid[OF True] by auto
next
  case False
  then show ?thesis by (simp add: match_at_invalid invalid_match_def)
qed

lemma match_at_append:
  assumes "invalidStartPos (match_at p cs) < 0"
  shows "match_at p (cs @ s) = match_at p cs"
proof -
  have v: "valid_after_dollar cs"
    using assms by (simp add: match_at_valid_iff)
  from match_at_valid[OF v] show ?thesis
  proof
    assume "\<exists>r. cs = CHR ''$'' # r \<and>
            (\<forall>p. match_at p cs =
               \<lparr>matchStartPos = p, matchEndPos = p + 2, escaped = ''$'', braced = [],
                invalidStartPos = - 1\<rparr>)"
    then show ?thesis by (auto simp: match_at_def)
  next
    assume "\<exists>name r. cs = CHR ''{'' # name @ CHR ''}'' # r \<and> list_all is_name_char name \<and>
            (\<forall>p. match_at p cs =
               \<lparr>matchStartPos = p, matchEndPos = p + 2 + length name + 1, escaped = [],
                braced = name, invalidStartPos = - 1\<rparr>)"
    then obtain name r where cs: "cs = CHR ''{'' # name @ CHR ''}'' # r"
      and n: "list_all is_name_char name"
      and m: "match_at p cs =
               \<lparr>matchStartPos = p, matchEndPos = p + 2 + length name + 1, escaped = [],
                braced = name, invalidStartPos = - 1\<rparr>"
      by blast
    have "cs @ s = CHR ''{'' # name @ CHR ''}'' # (r @ s)" by (simp add: cs)
    then show ?thesis
      using match_at_braced[OF n, of p "r @ s"] m by simp
  qed
qed

lemma scan_dollar:
  "\<not> 0 \<le> invalidStartPos (match_at p cs) \<Longrightarrow>
     scan p lit (CHR ''$'' # cs) =
       (case scan (matchEndPos (match_at p cs)) []
               (drop (matchEndPos (match_at p cs) - Suc p) cs) of
          Inl e \<Rightarrow> Inl e
        | Inr (ps, lit') \<Rightarrow>
            Inr ((if lit = [] then []
                  else [\<lparr>Text = lit @ escaped (match_at p cs), Category = templateLiteral\<rparr>]) @
                 (if braced (match_at p cs) = [] then []
                  else [\<lparr>Text = braced (match_at p cs), Category = templateVariable\<rparr>]) @
                 ps, lit'))"
  by simp

lemma scan_dollar_Inr:
  assumes "\<not> 0 \<le> invalidStartPos (match_at p cs)"
    and "scan (matchEndPos (match_at p cs)) []
           (drop (matchEndPos (match_at p cs) - Suc p) cs) = Inr (qs, l')"
  shows "scan p lit (CHR ''$'' # cs) =
     Inr ((if lit = [] then []
           else [\<lparr>Text = lit @ escaped (match_at p cs), Category = templateLiteral\<rparr>]) @
          (if braced (match_at p cs) = [] then []
           else [\<lparr>Text = braced (match_at p cs), Category = templateVariable\<rparr>]) @
          qs, l')"
  using assms by simp

lemma scan_shift: "scan p lit s = Inr r \<Longrightarrow> scan q lit s = Inr r"
proof (induction p lit s arbitrary: q r rule: scan.induct)
  case (1 p lit)
  then show ?case by simp
next
  case (2 p lit c cs)
  show ?case
  proof (cases "c = CHR ''$''")
    case False
    with "2.prems" have "scan (Suc p) (lit @ [c]) cs = Inr r" by simp
    then have "scan (Suc q) (lit @ [c]) cs = Inr r" by (rule "2.IH"(2)[OF False])
    with False show ?thesis by simp
  next
    case True
    have valid: "\<not> 0 \<le> invalidStartPos (match_at p cs)"
      using "2.prems" True by (auto split: if_splits)
    then have validq: "\<not> 0 \<le> invalidStartPos (match_at q cs)"
      using match_at_shift[of p cs q] by simp
    have e: "escaped (match_at q cs) = escaped (match_at p cs)"
      and b: "braced (match_at q cs) = braced (match_at p cs)"
      and k: "matchEndPos (match_at q cs) - Suc q = matchEndPos (match_at p cs) - Suc p"
      using match_at_shift[of p cs q] by simp_all
    obtain ps l where inner:
      "scan (matchEndPos (match_at p cs)) [] (drop (matchEndPos (match_at p cs) - Suc p) cs) =
         Inr (ps, l)"
      using "2.prems" True valid by (auto split: sum.splits)
    have innerq:
      "scan (matchEndPos (match_at q cs)) [] (drop (matchEndPos (match_at q cs) - Suc q) cs) =
         Inr (ps, l)"
      unfolding k using "2.IH"(1)[OF True valid inner] .
    have "scan q lit (CHR ''$'' # cs) = scan p lit (CHR ''$'' # cs)"
      unfolding scan_dollar_Inr[OF valid inner] scan_dollar_Inr[OF validq innerq] e b ..
    with "2.prems" True show ?thesis by simp
  qed
qed

lemma scan_append:
  "scan p lit pre = Inr (ps, l) \<Longrightarrow>
     scan p lit (pre @ s) =
       (case scan (p + length pre) l s of
          Inl e \<Rightarrow> Inl e
        | Inr (qs, l') \<Rightarrow> Inr (ps @ qs, l'))"
proof (induction p lit pre arbitrary: ps l rule: scan.induct)
  case (1 p lit)
  then show ?case by (auto split: sum.splits)
next
  case (2 p lit c cs)
  show ?case
  proof (cases "c = CHR ''$''")
    case False
    with "2.prems" have "scan (Suc p) (lit @ [c]) cs = Inr (ps, l)" by simp
    from "2.IH"(2)[OF False this] False show ?thesis by simp
  next
    case True
    define m where "m = match_at p cs"
    define k where "k = matchEndPos m - Suc p"
    have valid: "\<not> 0 \<le> invalidStartPos m"
      using "2.prems" True by (auto simp: m_def split: if_splits)
    have kb: "k \<le> length cs" and eb: "Suc p \<le> matchEndPos m"
      using match_at_end_bounds[of p cs] valid by (auto simp: m_def k_def)
    have ma: "match_at p (cs @ s) = m"
      using match_at_append[of p cs s] valid by (simp add: m_def)
    obtain ps1 where inner: "scan (matchEndPos m) [] (drop k cs) = Inr (ps1, l)"
      and ps: "ps = (if lit = [] then []
                     else [\<lparr>Text = lit @ escaped m, Category = templateLiteral\<rparr>]) @
                    (if braced m = [] then []
                     else [\<lparr>Text = braced m, Category = templateVariable\<rparr>]) @ ps1"
      using "2.prems" True valid unfolding m_def k_def
      by (auto split: sum.splits)
    have ih: "scan (matchEndPos m) [] (drop k cs @ s) =
       (case scan (matchEndPos m + length (drop k cs)) l s of
          Inl e \<Rightarrow> Inl e
        | Inr (qs, l') \<Rightarrow> Inr (ps1 @ qs, l'))"
      using "2.IH"(1)[OF True _ inner[unfolded m_def k_def]] valid
      by (simp add: m_def k_def)
    have pos: "matchEndPos m + length (drop k cs) = p + length (c # cs)"
      using kb eb by (simp add: k_def)
    have unfold: "scan p lit (c # cs @ s) =
       (case scan (matchEndPos m) [] (drop k cs @ s) of
          Inl e \<Rightarrow> Inl e
        | Inr (qs, lit') \<Rightarrow>
            Inr ((if lit = [] then []
                  else [\<lparr>Text = lit @ escaped m, Category = templateLiteral\<rparr>]) @
                 (if braced m = [] then []
                  else [\<lparr>Text = braced m, Category = templateVariable\<rparr>]) @ qs, lit'))"
    proof -
      have "\<not> 0 \<le> invalidStartPos (match_at p (cs @ s))"
        using valid by (simp add: ma)
      from scan_dollar[OF this, of lit] show ?thesis
        unfolding ma using True kb by (simp add: k_def)
    qed
    show ?thesis
      unfolding append_Cons unfold ih pos ps
      by (cases "scan (p + length (c # cs)) l s") auto
  qed
qed


lemma Parse_success_scan:
  "Parse t = Inr ps \<Longrightarrow> \<exists>ps0 l. scan 0 [] t = Inr (ps0, l) \<and> ps = finish (ps0, l)"
  by (auto simp: Parse_scan split: sum.splits)

text \<open>
  Claim C2 has every \<^verbatim>\<open>$$\<close> contribute one literal \<^verbatim>\<open>$\<close>, also at the very start of
  the template. \<open>Parse\<close> appends the escaped \<^verbatim>\<open>$\<close> to the literal part it emits for the
  text before the match, and emits that part only when this text is not empty. So an
  escape at the start of the template vanishes: for every template \<open>t\<close> that \<open>Parse\<close>
  accepts, \<^verbatim>\<open>$$\<close> followed by \<open>t\<close> parses to the very parts of \<open>t\<close>. \<^verbatim>\<open>$$abc\<close> parses to
  the single literal \<^verbatim>\<open>abc\<close> and \<^verbatim>\<open>$$\<close> to no part at all, while \<^verbatim>\<open>a$$b\<close> parses to
  the literals \<^verbatim>\<open>a$\<close> and \<^verbatim>\<open>b\<close>.
\<close>

theorem Parse_leading_escape_lost:
  "(Parse t = Inr ps \<longrightarrow> Parse (''$$'' @ t) = Inr ps) \<and>
   Parse ''$$abc'' = Inr [\<lparr>Text = ''abc'', Category = templateLiteral\<rparr>] \<and>
   Parse ''$$'' = Inr [] \<and>
   Parse ''a$$b'' = Inr [\<lparr>Text = ''a$'', Category = templateLiteral\<rparr>,
                         \<lparr>Text = ''b'', Category = templateLiteral\<rparr>]"
proof -
  have "Parse (''$$'' @ t) = Inr ps" if h: "Parse t = Inr ps"
  proof -
    obtain ps0 l where t: "scan 0 [] t = Inr (ps0, l)" and ps: "ps = finish (ps0, l)"
      using Parse_success_scan[OF h] by blast
    have m: "match_at 0 (CHR ''$'' # t) =
       \<lparr>matchStartPos = 0, matchEndPos = 2, escaped = ''$'', braced = [],
        invalidStartPos = - 1\<rparr>"
      by (simp add: match_at_def)
    have a: "\<not> 0 \<le> invalidStartPos (match_at 0 (CHR ''$'' # t))" by (simp add: m)
    have b: "scan (matchEndPos (match_at 0 (CHR ''$'' # t))) []
               (drop (matchEndPos (match_at 0 (CHR ''$'' # t)) - Suc 0) (CHR ''$'' # t)) =
             Inr (ps0, l)"
      using scan_shift[OF t, of 2] by (simp add: m)
    have "scan 0 [] (CHR ''$'' # CHR ''$'' # t) = Inr (ps0, l)"
      using scan_dollar_Inr[OF a b, of "[]"] by (simp add: m)
    then show ?thesis by (simp add: Parse_scan ps)
  qed
  moreover have "Parse ''$$abc'' = Inr [\<lparr>Text = ''abc'', Category = templateLiteral\<rparr>] \<and>
   Parse ''$$'' = Inr [] \<and>
   Parse ''a$$b'' = Inr [\<lparr>Text = ''a$'', Category = templateLiteral\<rparr>,
                         \<lparr>Text = ''b'', Category = templateLiteral\<rparr>]"
    by (simp add: Parse_def FindAllStringSubmatch_def match_at_def slice_def)
  ultimately show ?thesis by blast
qed

theorem Parse_leading_escape_lost_witness:
  "Parse ''x = 1'' = Inr [\<lparr>Text = ''x = 1'', Category = templateLiteral\<rparr>] \<and>
   Parse ''$$x = 1'' = Inr [\<lparr>Text = ''x = 1'', Category = templateLiteral\<rparr>]"
proof -
  have p: "Parse ''x = 1'' = Inr [\<lparr>Text = ''x = 1'', Category = templateLiteral\<rparr>]"
    by (simp add: Parse_def FindAllStringSubmatch_def)
  show ?thesis
    using p Parse_leading_escape_lost[of "''x = 1''"
            "[\<lparr>Text = ''x = 1'', Category = templateLiteral\<rparr>]"]
    by simp
qed

text \<open>
  Claim C3, amended: a placeholder \<^verbatim>\<open>${name}\<close> between two templates that \<open>Parse\<close>
  accepts is accepted, and the parts are those of the template before it, a variable
  part holding the name when the name is not empty, and those of the template after it.
  The empty placeholder \<^verbatim>\<open>${}\<close> is accepted and emits no part: \<open>Parse\<close> emits a
  variable part only under \<open>len(variable) > 0\<close>.
\<close>

theorem Parse_placeholder:
  assumes "Parse pre = Inr ps" and "Parse post = Inr qs" and "list_all is_name_char name"
  shows "Parse (pre @ ''${'' @ name @ ''}'' @ post) =
     Inr (ps @ (if name = [] then [] else [\<lparr>Text = name, Category = templateVariable\<rparr>]) @ qs)"
proof -
  obtain ps0 l where pre: "scan 0 [] pre = Inr (ps0, l)" and ps: "ps = finish (ps0, l)"
    using Parse_success_scan[OF assms(1)] by blast
  obtain qs0 l' where post: "scan 0 [] post = Inr (qs0, l')" and qs: "qs = finish (qs0, l')"
    using Parse_success_scan[OF assms(2)] by blast
  define q where "q = length pre"
  have m: "match_at q (CHR ''{'' # name @ CHR ''}'' # post) =
     \<lparr>matchStartPos = q, matchEndPos = q + 2 + length name + 1, escaped = [],
      braced = name, invalidStartPos = - 1\<rparr>"
    by (rule match_at_braced[OF assms(3)])
  have post': "scan (q + 2 + length name + 1) [] post = Inr (qs0, l')"
    by (rule scan_shift[OF post])
  have "scan q l (CHR ''$'' # CHR ''{'' # name @ CHR ''}'' # post) =
     Inr ((if l = [] then [] else [\<lparr>Text = l, Category = templateLiteral\<rparr>]) @
          (if name = [] then [] else [\<lparr>Text = name, Category = templateVariable\<rparr>]) @ qs0, l')"
  proof -
    let ?X = "CHR ''{'' # name @ CHR ''}'' # post"
    have a: "\<not> 0 \<le> invalidStartPos (match_at q ?X)" by (simp add: m)
    have b: "scan (matchEndPos (match_at q ?X)) []
               (drop (matchEndPos (match_at q ?X) - Suc q) ?X) = Inr (qs0, l')"
      using post' by (simp add: m)
    from scan_dollar_Inr[OF a b, of l] show ?thesis by (simp add: m)
  qed
  then have "scan 0 [] (pre @ CHR ''$'' # CHR ''{'' # name @ CHR ''}'' # post) =
     Inr (ps0 @ (if l = [] then [] else [\<lparr>Text = l, Category = templateLiteral\<rparr>]) @
          (if name = [] then [] else [\<lparr>Text = name, Category = templateVariable\<rparr>]) @ qs0, l')"
    using scan_append[OF pre, of "CHR ''$'' # CHR ''{'' # name @ CHR ''}'' # post"]
    by (simp add: q_def)
  then show ?thesis
    by (simp add: Parse_scan ps qs finish_def)
qed

theorem Parse_placeholder_witness:
  "Parse ''f(${})'' = Inr [\<lparr>Text = ''f('', Category = templateLiteral\<rparr>,
                           \<lparr>Text = '')'', Category = templateLiteral\<rparr>] \<and>
   Parse ''f(${x})'' = Inr [\<lparr>Text = ''f('', Category = templateLiteral\<rparr>,
                            \<lparr>Text = ''x'', Category = templateVariable\<rparr>,
                            \<lparr>Text = '')'', Category = templateLiteral\<rparr>]"
proof -
  have p: "Parse ''f('' = Inr [\<lparr>Text = ''f('', Category = templateLiteral\<rparr>]"
    by (simp add: Parse_def FindAllStringSubmatch_def)
  have q: "Parse '')'' = Inr [\<lparr>Text = '')'', Category = templateLiteral\<rparr>]"
    by (simp add: Parse_def FindAllStringSubmatch_def)
  have n0: "list_all is_name_char []" by simp
  have n1: "list_all is_name_char ''x''" by (simp add: is_name_char_def)
  show ?thesis
    using Parse_placeholder[OF p q n0] Parse_placeholder[OF p q n1] by simp
qed

text \<open>
  Claim C3 as stated fails: the template \<^verbatim>\<open>a${}b\<close> parses to the two literals \<^verbatim>\<open>a\<close>
  and \<^verbatim>\<open>b\<close>, with no variable part for the empty placeholder.
\<close>

theorem Parse_placeholder_counterexample:
  "Parse ''a${}b'' = Inr [\<lparr>Text = ''a'', Category = templateLiteral\<rparr>,
                          \<lparr>Text = ''b'', Category = templateLiteral\<rparr>]"
  by (simp add: Parse_def FindAllStringSubmatch_def match_at_def slice_def is_name_char_def)

text \<open>
  Claim C4, amended: when the text before a \<^verbatim>\<open>$\<close> is a template that \<open>Parse\<close> accepts and
  the text after it continues no valid form, \<open>Parse\<close> returns the error whose position is
  the offset of that \<^verbatim>\<open>$\<close> plus one: the start of the empty group \<open>invalid\<close>, right after
  the \<^verbatim>\<open>$\<close>.
\<close>

theorem Parse_error_position:
  assumes "Parse pre = Inr ps" and "\<not> valid_after_dollar rest"
  shows "Parse (pre @ CHR ''$'' # rest) = Inl (ErrInvalidPlaceholder (int (length pre) + 1))"
proof -
  obtain ps0 l where pre: "scan 0 [] pre = Inr (ps0, l)"
    using Parse_success_scan[OF assms(1)] by blast
  have "scan (length pre) l (CHR ''$'' # rest) =
          Inl (ErrInvalidPlaceholder (int (length pre) + 1))"
    by (simp add: match_at_invalid[OF assms(2)] invalid_match_def)
  then have "scan 0 [] (pre @ CHR ''$'' # rest) =
          Inl (ErrInvalidPlaceholder (int (length pre) + 1))"
    using scan_append[OF pre, of "CHR ''$'' # rest"] by simp
  then show ?thesis by (simp add: Parse_scan)
qed

theorem Parse_error_position_witness:
  "Parse ''let x = ${name'' = Inl (ErrInvalidPlaceholder 9)"
proof -
  have p: "Parse ''let x = '' = Inr [\<lparr>Text = ''let x = '', Category = templateLiteral\<rparr>]"
    by (simp add: Parse_def FindAllStringSubmatch_def)
  have "\<not> is_name_char CHR ''}''" by (simp add: is_name_char_def)
  then have v: "\<not> valid_after_dollar ''{name''"
    by (auto simp: valid_after_dollar_def append_eq_Cons_conv Cons_eq_append_conv)
  show ?thesis
    using Parse_error_position[OF p v] by simp
qed

text \<open>
  Claim C4 as stated fails: in \<^verbatim>\<open>ab$\<close> the offending \<^verbatim>\<open>$\<close> is at offset 2, and the
  reported position is 3.
\<close>

theorem Parse_error_position_counterexample:
  "Parse ''ab$'' = Inl (ErrInvalidPlaceholder 3) \<and> ''ab$'' ! 2 = CHR ''$''"
  by (simp add: Parse_def FindAllStringSubmatch_def match_at_def invalid_match_def)

section \<open>Properties of the retrying request executor\<close>

lemma retries_left_Suc: "n \<le> maxAttempts c \<Longrightarrow> retries_left c n = Suc (retries_left c (n + 1))"
  by (auto simp: retries_left_def)

lemma retries_left_1: "retries_left c 1 = nat (maxAttempts c)"
  by (auto simp: retries_left_def)

lemma doWithRetry_always429:
  "doWithRetry c always429 jitter w n =
     (\<lparr>sends = sends w + retries_left c n + 1,
       sleeps = sleeps w @
         map (\<lambda>i. backoff c (jitter (draws w + i)) (n + int i)) [0..<retries_left c n],
       draws = draws w + retries_left c n\<rparr>,
      n, Some \<lparr>StatusCode = 429, bodyReadErr = None\<rparr>, None)"
proof (induction c always429 jitter w n rule: doWithRetry.induct)
  case (1 c jitter w n)
  show ?case
  proof (cases "n \<le> maxAttempts c")
    case False
    then show ?thesis
      by (subst doWithRetry.simps)
         (simp add: always429_def StatusTooManyRequests_def retries_left_def)
  next
    case True
    have ih: "doWithRetry c always429 jitter
                (w\<lparr>sends := Suc (sends w),
                   sleeps := sleeps w @ [backoff c (jitter (draws w)) n],
                   draws := Suc (draws w)\<rparr>) (n + 1) =
              (\<lparr>sends = Suc (sends w) + retries_left c (n + 1) + 1,
                sleeps = (sleeps w @ [backoff c (jitter (draws w)) n]) @
                   map (\<lambda>i. backoff c (jitter (Suc (draws w) + i)) (n + 1 + int i))
                     [0..<retries_left c (n + 1)],
                draws = Suc (draws w) + retries_left c (n + 1)\<rparr>,
               n + 1, Some \<lparr>StatusCode = 429, bodyReadErr = None\<rparr>, None)"
      using "1.hyps"[of "\<lparr>StatusCode = 429, bodyReadErr = None\<rparr>"] True
      by (simp add: always429_def StatusTooManyRequests_def)
    have shift: "(\<lambda>i. backoff c (jitter (draws w + Suc i)) (n + int (Suc i))) =
                 (\<lambda>i. backoff c (jitter (Suc (draws w) + i)) (n + 1 + int i))"
      by (simp add: add.commute add.left_commute)
    have unfold: "doWithRetry c always429 jitter w n =
       (case doWithRetry c always429 jitter
                (w\<lparr>sends := Suc (sends w),
                   sleeps := sleeps w @ [backoff c (jitter (draws w)) n],
                   draws := Suc (draws w)\<rparr>) (n + 1) of
          (w', _, r', err') \<Rightarrow> (w', n, r', err'))"
      using True
      by (subst doWithRetry.simps) (simp add: always429_def StatusTooManyRequests_def)
    show ?thesis
      unfolding unfold ih retries_left_Suc[OF True] map_upt_Suc shift
      by simp
  qed
qed

lemma doWithRetry_trace:
  "sends w < sends (fst (doWithRetry c transport jitter w n)) \<and>
   fst (snd (doWithRetry c transport jitter w n)) = n \<and>
   (\<forall>k. sends w \<le> k \<and> k < sends (fst (doWithRetry c transport jitter w n)) \<longrightarrow>
        send_ok c transport w n (doWithRetry c transport jitter w n) k)"
proof (induction c transport jitter w n rule: doWithRetry.induct)
  case (1 c transport jitter w n)
  show ?case
  proof (cases "transport (sends w)")
    case (Inl e)
    then show ?thesis
      by (subst (1 2 3 4) doWithRetry.simps) (auto simp: send_ok_def le_less_Suc_eq)
  next
    case (Inr r)
    show ?thesis
    proof (cases "n \<le> maxAttempts c \<and> StatusCode r = StatusTooManyRequests")
      case False
      with Inr show ?thesis
        by (subst (1 2 3 4) doWithRetry.simps)
           (auto simp: send_ok_def le_less_Suc_eq StatusTooManyRequests_def)
    next
      case retry: True
      show ?thesis
      proof (cases "bodyReadErr r")
        case (Some e)
        with Inr retry show ?thesis
          by (subst (1 2 3 4) doWithRetry.simps)
             (auto simp: send_ok_def le_less_Suc_eq StatusTooManyRequests_def)
      next
        case None
        define w2 where "w2 = w\<lparr>sends := Suc (sends w),
                            sleeps := sleeps w @ [backoff c (jitter (draws w)) n],
                            draws := Suc (draws w)\<rparr>"
        define res2 where "res2 = doWithRetry c transport jitter w2 (n + 1)"
        obtain w' a2 r' err' where res2: "res2 = (w', a2, r', err')"
          by (cases res2) auto
        have unfold: "doWithRetry c transport jitter w n = (w', n, r', err')"
          using Inr retry None res2
          by (subst doWithRetry.simps) (simp add: w2_def res2_def)
        have ih: "sends w2 < sends w' \<and>
                  (\<forall>k. sends w2 \<le> k \<and> k < sends w' \<longrightarrow>
                     send_ok c transport w2 (n + 1) res2 k)"
          using "1.IH"[OF Inr retry None] res2
          by (auto simp: w2_def res2_def)
        have s2: "sends w2 = Suc (sends w)" by (simp add: w2_def)
        have "send_ok c transport w n (w', n, r', err') k"
          if k: "sends w \<le> k" "k < sends w'" for k
        proof (cases "k = sends w")
          case True
          with ih s2 Inr retry show ?thesis
            by (simp add: send_ok_def StatusTooManyRequests_def)
        next
          case False
          with k have k2: "sends w2 \<le> k" by (simp add: s2)
          then have ok2: "send_ok c transport w2 (n + 1) res2 k" using ih k by blast
          have eq: "n + 1 + int (k - sends w2) = n + int (k - sends w)"
            using k2 s2 by simp
          from ok2 show ?thesis
            by (simp only: send_ok_def res2 eq prod.case)
        qed
        with ih s2 show ?thesis
          by (simp add: unfold)
      qed
    qed
  qed
qed

text \<open>
  Claim C1 has \<open>doWithRetry\<close>, started at attempt 1 against a transport that always
  answers 429, send the request exactly \<open>maxAttempts\<close> times. The test
  \<open>attemptNumber \<le> c.maxAttempts\<close> lets attempt number \<open>maxAttempts\<close> retry once more, so the
  request is sent \<open>maxAttempts + 1\<close> times (once when \<open>maxAttempts\<close> is not positive): four
  times with the default configuration. The last 429 response is returned, with no
  error.
\<close>

theorem doWithRetry_always429_sends:
  "sends (fst (doWithRetry c always429 jitter world0 1)) = Suc (nat (maxAttempts c)) \<and>
   sends (fst (doWithRetry (NewClient []) always429 jitter world0 1)) = 4 \<and>
   snd (snd (doWithRetry (NewClient []) always429 jitter world0 1)) =
     (Some \<lparr>StatusCode = 429, bodyReadErr = None\<rparr>, None)"
  by (simp add: doWithRetry_always429 retries_left_1 world0_def NewClient_def
        retryMaxAttemptsDefault_def)

text \<open>
  Claim C8: in a call of \<open>doWithRetry\<close> that starts at attempt \<open>n\<close> after \<open>sends w\<close> earlier
  sends, at least one send happens; a send that fails at the transport is the last one,
  and its error is returned with no response; every send that is followed by another one
  was answered with status 429 at an attempt number no greater than \<open>maxAttempts\<close>; and a
  response with another status, or one obtained beyond the ceiling, ends the call and is
  returned as it is, with no error.
\<close>

theorem doWithRetry_retry_policy:
  assumes "doWithRetry c transport jitter w n = (w', a, r', err')"
  shows "sends w < sends w' \<and>
    (\<forall>k e. sends w \<le> k \<and> k < sends w' \<and> transport k = Inl e \<longrightarrow>
       sends w' = Suc k \<and> r' = None \<and> err' = Some e) \<and>
    (\<forall>k r. sends w \<le> k \<and> Suc k < sends w' \<and> transport k = Inr r \<longrightarrow>
       StatusCode r = 429 \<and> n + int (k - sends w) \<le> maxAttempts c) \<and>
    (\<forall>k r. sends w \<le> k \<and> k < sends w' \<and> transport k = Inr r \<and>
         (StatusCode r \<noteq> 429 \<or> maxAttempts c < n + int (k - sends w)) \<longrightarrow>
       sends w' = Suc k \<and> r' = Some r \<and> err' = None)"
proof -
  have lt: "sends w < sends w'"
    using doWithRetry_trace[of w c transport jitter n] assms by simp
  have ok: "send_ok c transport w n (w', a, r', err') k" if "sends w \<le> k" "k < sends w'" for k
    using doWithRetry_trace[of w c transport jitter n] assms that by auto
  have p1: "sends w' = Suc k \<and> r' = None \<and> err' = Some e"
    if "sends w \<le> k" "k < sends w'" "transport k = Inl e" for k e
    using ok[OF that(1,2)] that(3) by (simp add: send_ok_def)
  have p2: "StatusCode r = 429 \<and> n + int (k - sends w) \<le> maxAttempts c"
    if "sends w \<le> k" "Suc k < sends w'" "transport k = Inr r" for k r
    using ok[of k] that by (simp add: send_ok_def)
  have p3: "sends w' = Suc k \<and> r' = Some r \<and> err' = None"
    if "sends w \<le> k" "k < sends w'" "transport k = Inr r"
       "StatusCode r \<noteq> 429 \<or> maxAttempts c < n + int (k - sends w)" for k r
    using ok[OF that(1,2)] that by (auto simp: send_ok_def split: if_splits)
  show ?thesis
    using lt p1 p2 p3 by blast
qed

theorem doWithRetry_retry_policy_witness:
  "doWithRetry (NewClient []) throttled_then_down (\<lambda>_. 0) world0 1 =
     (\<lparr>sends = 2, sleeps = [Some 0], draws = 1\<rparr>, 1, None, Some (ErrTransport 7)) \<and>
   throttled_then_down 0 = Inr \<lparr>StatusCode = 429, bodyReadErr = None\<rparr> \<and>
   throttled_then_down 1 = Inl (ErrTransport 7) \<and>
   (1::int) + int (0 - sends world0) \<le> maxAttempts (NewClient [])"
proof -
  have ev: "doWithRetry (NewClient []) throttled_then_down (\<lambda>_. 0) world0 1 =
     (\<lparr>sends = 2, sleeps = [Some 0], draws = 1\<rparr>, 1, None, Some (ErrTransport 7))"
    by (simp add: doWithRetry.simps throttled_then_down_def world0_def NewClient_def
          retryMaxAttemptsDefault_def StatusTooManyRequests_def backoff_def pow2_def
          float64_to_int64_def wrap64_def retryMaxBackoffDefault_def time_Second_def)
  have t0: "throttled_then_down 0 = Inr \<lparr>StatusCode = 429, bodyReadErr = None\<rparr>"
    and t1: "throttled_then_down 1 = Inl (ErrTransport 7)"
    by (simp_all add: throttled_then_down_def)
  from doWithRetry_retry_policy[OF ev]
  have "\<forall>k r. sends world0 \<le> k \<and> Suc k < sends \<lparr>sends = 2, sleeps = [Some 0], draws = 1\<rparr> \<and>
           throttled_then_down k = Inr r \<longrightarrow>
         StatusCode r = 429 \<and> 1 + int (k - sends world0) \<le> maxAttempts (NewClient [])"
    by blast
  from this[rule_format, of 0 "\<lparr>StatusCode = 429, bodyReadErr = None\<rparr>"] t0
  have "(1::int) + int (0 - sends world0) \<le> maxAttempts (NewClient [])"
    by (simp add: world0_def)
  with ev t0 t1 show ?thesis by simp
qed

section \<open>Properties of the backoff\<close>

lemma wrap64_id:
  "- 9223372036854775808 \<le> x \<Longrightarrow> x < 9223372036854775808 \<Longrightarrow> wrap64 x = x"
  by (simp add: wrap64_def)

lemma pow2_bound: "n \<le> 33 \<Longrightarrow> pow2 n \<le> 2 ^ 33"
proof (cases "0 \<le> n")
  case True
  assume "n \<le> 33"
  with True have "nat n \<le> 33" by simp
  then have "(2::rat) ^ nat n \<le> 2 ^ 33" by (rule power_increasing) simp
  with True show ?thesis by (simp add: pow2_def)
next
  case False
  have "1 / (2::rat) ^ nat (- n) \<le> 1" by simp
  with False have "pow2 n \<le> 1" by (simp add: pow2_def)
  then show ?thesis by simp
qed

lemma pow2_nonneg: "0 \<le> pow2 n"
  by (simp add: pow2_def)

text \<open>
  Claim C7, amended: \<open>time.Duration(mult) * time.Second\<close> converts the product to an integer
  before it scales it to seconds, so the fraction of a second is dropped. For a jitter
  \<open>u\<close> in \<open>[0, 1)\<close> and an attempt number \<open>n \<le> 33\<close> (beyond it the \<open>int64\<close> product can wrap
  around) the backoff is the smaller of \<open>maxBackoff\<close> and \<open>\<lfloor>2^n * u\<rfloor>\<close> whole seconds. The
  default maximum backoff is 20 seconds.
\<close>

theorem backoff_whole_seconds:
  "(0 \<le> u \<and> u < 1 \<and> n \<le> 33 \<longrightarrow>
      backoff c u n = Some (min (maxBackoff c) (\<lfloor>pow2 n * u\<rfloor> * time_Second))) \<and>
   maxBackoff (NewClient []) = 20 * time_Second"
proof -
  have "backoff c u n = Some (min (maxBackoff c) (\<lfloor>pow2 n * u\<rfloor> * time_Second))"
    if u: "0 \<le> u" "u < 1" and n: "n \<le> 33"
  proof -
    define m where "m = pow2 n * u"
    have m0: "0 \<le> m" using u pow2_nonneg by (simp add: m_def)
    have "m \<le> pow2 n * 1" unfolding m_def
      using u pow2_nonneg by (intro mult_left_mono) auto
    then have m1: "m \<le> 2 ^ 33" using pow2_bound[OF n] by simp
    define d where "d = \<lfloor>m\<rfloor>"
    have d0: "0 \<le> d" using m0 by (simp add: d_def)
    have "d \<le> \<lfloor>(2::rat) ^ 33\<rfloor>" unfolding d_def using m1 by (rule floor_mono)
    then have d1: "d \<le> 8589934592" by simp
    have conv: "float64_to_int64 m = Some d"
      using m0 d0 d1 by (simp add: float64_to_int64_def d_def[symmetric])
    have w: "wrap64 (d * time_Second) = d * time_Second"
      unfolding time_Second_def using d0 d1 by (intro wrap64_id) linarith+
    show ?thesis
      using n conv w
      by (auto simp: backoff_def m_def[symmetric] d_def[symmetric] min_def Let_def)
  qed
  moreover have "maxBackoff (NewClient []) = 20 * time_Second"
    by (simp add: NewClient_def retryMaxBackoffDefault_def)
  ultimately show ?thesis by blast
qed

theorem backoff_whole_seconds_witness:
  "backoff (NewClient []) (3 / 4) 1 = Some 1000000000"
proof -
  have fl: "\<lfloor>(3::rat) / 2\<rfloor> = 1" by (simp add: floor_eq_iff)
  show ?thesis
    using backoff_whole_seconds[of "3 / 4" 1 "NewClient []"]
    by (simp add: pow2_def time_Second_def min_def NewClient_def retryMaxBackoffDefault_def fl)
qed

text \<open>
  Claim C7 as stated fails: at attempt 1 with jitter \<open>3/4\<close> the claimed duration is 1.5
  seconds (in nanoseconds, the second conjunct), and \<open>backoff\<close> returns 1 second.
\<close>

theorem backoff_fraction_counterexample:
  "backoff (NewClient []) (3 / 4) 1 = Some 1000000000 \<and>
   min (rat_of_int (maxBackoff (NewClient []))) (pow2 1 * (3 / 4) * rat_of_int time_Second)
     = 1500000000"
proof -
  have fl: "\<lfloor>(3::rat) / 2\<rfloor> = 1" by (simp add: floor_eq_iff)
  show ?thesis
    by (simp add: backoff_def float64_to_int64_def wrap64_def pow2_def time_Second_def
          NewClient_def retryMaxBackoffDefault_def fl)
qed

section \<open>Properties of the transaction-time tracker\<close>

lemma sync_max: "sync v new = max v new"
  by (subst sync.simps) (simp add: CompareAndSwapInt64_def)

lemma GetLastTxnTime_foldl:
  "GetLastTxnTime (foldl SetLastTxnTime c cands) = fold max cands (GetLastTxnTime c)"
proof (induction cands arbitrary: c)
  case Nil
  then show ?case by simp
next
  case (Cons x xs)
  have "GetLastTxnTime (SetLastTxnTime c x) = max x (GetLastTxnTime c)"
    by (simp add: SetLastTxnTime_def GetLastTxnTime_def)
  then show ?case
    using Cons.IH[of "SetLastTxnTime c x"] by simp
qed

lemma foldl_SetLastTxnTime:
  "GetLastTxnTime (foldl SetLastTxnTime c cands) = Max (insert (GetLastTxnTime c) (set cands))"
  using Max.set_eq_fold[of "GetLastTxnTime c" cands]
  by (simp add: GetLastTxnTime_foldl)

text \<open>
  Claim C5, amended: a call of \<open>SetLastTxnTime\<close> leaves the client as it is exactly when its
  candidate is not greater than the current value, and stores the candidate otherwise;
  \<open>txnTime.sync\<close> does the same to the value. After any sequence of calls
  \<open>GetLastTxnTime\<close> returns the maximum of the value the client started with and the
  candidates of the calls; a new client starts with 0, and after 100, 50, 200 it
  returns 200.
\<close>

theorem watermark_is_max_with_start:
  "GetLastTxnTime (foldl SetLastTxnTime c cands) = Max (insert (GetLastTxnTime c) (set cands)) \<and>
   (SetLastTxnTime c val = c) = (val \<le> GetLastTxnTime c) \<and>
   GetLastTxnTime (SetLastTxnTime c val) = (if val > GetLastTxnTime c then val else GetLastTxnTime c) \<and>
   sync (GetLastTxnTime c) val = GetLastTxnTime (SetLastTxnTime c val) \<and>
   GetLastTxnTime (NewClient []) = 0 \<and>
   GetLastTxnTime (foldl SetLastTxnTime (NewClient []) [100, 50, 200]) = 200"
proof -
  have a: "(SetLastTxnTime c val = c) = (val \<le> GetLastTxnTime c)"
  proof (cases "val > lastTxnTime c")
    case True
    then have "lastTxnTime (SetLastTxnTime c val) \<noteq> lastTxnTime c"
      by (simp add: SetLastTxnTime_def)
    then have "SetLastTxnTime c val \<noteq> c" by auto
    with True show ?thesis by (simp add: GetLastTxnTime_def)
  next
    case False
    then show ?thesis by (simp add: SetLastTxnTime_def GetLastTxnTime_def)
  qed
  have b: "GetLastTxnTime (NewClient []) = 0"
    by (simp add: NewClient_def GetLastTxnTime_def)
  have d: "GetLastTxnTime (foldl SetLastTxnTime (NewClient []) [100, 50, 200]) = 200"
    by (simp add: NewClient_def SetLastTxnTime_def GetLastTxnTime_def)
  show ?thesis
    using a b d
    by (simp add: foldl_SetLastTxnTime sync_max) (simp add: SetLastTxnTime_def GetLastTxnTime_def)
qed

text \<open>
  Claim C5 as stated, that \<open>GetLastTxnTime\<close> returns the maximum candidate observed,
  fails for a new client whose candidates are all negative (a time before 1970, such as
  the zero \<open>time.Time\<close>): the value stays 0.
\<close>

theorem watermark_below_start_counterexample:
  "\<not> (\<forall>cands. cands \<noteq> [] \<longrightarrow>
        GetLastTxnTime (foldl SetLastTxnTime (NewClient []) cands) = Max (set cands))"
proof
  assume "\<forall>cands. cands \<noteq> [] \<longrightarrow>
        GetLastTxnTime (foldl SetLastTxnTime (NewClient []) cands) = Max (set cands)"
  then have "GetLastTxnTime (foldl SetLastTxnTime (NewClient []) [- 1]) = Max (set [- 1])"
    by blast
  then show False
    by (simp add: NewClient_def SetLastTxnTime_def GetLastTxnTime_def)
qed

section \<open>Properties of the page iterator\<close>

lemma finishPage_not_Panic: "finishPage fqlFn q page \<noteq> Panic"
  by (simp add: finishPage_def split: prod.splits option.splits)

lemma Parse_paginate:
  "Parse ''Set.paginate(${after})'' =
     Inr [\<lparr>Text = ''Set.paginate('', Category = templateLiteral\<rparr>,
          \<lparr>Text = ''after'', Category = templateVariable\<rparr>,
          \<lparr>Text = '')'', Category = templateLiteral\<rparr>]"
  by (simp add: Parse_def FindAllStringSubmatch_def match_at_def slice_def is_name_char_def)

lemma FQL_paginate:
  "FQL ''Set.paginate(${after})'' [(''after'', AString after)] = Inr (paginate_query after)"
  by (simp only: FQL_def Parse_paginate paginate_query_def sum.case)

lemma finishPage_FQL:
  "finishPage FQL q page =
     Return (q\<lparr>fql := (if After page = [] then None else Some (paginate_query (After page)))\<rparr>,
             Inr page)"
  by (simp add: finishPage_def nextPage_def FQL_paginate)

lemma finishPage_page:
  assumes "finishPage fqlFn q page = Return (q', Inr page')"
  shows "page' = page \<and>
     (if After page = [] then fql q' = None
      else \<exists>query. fqlFn ''Set.paginate(${after})'' [(''after'', AString (After page))] =
             Inr query \<and> fql q' = Some query)"
  using assms
  by (auto simp: finishPage_def nextPage_def split: if_splits sum.splits)

lemma Next_page:
  assumes "Next fqlFn clientQuery q = Return (q', Inr page)"
  shows "if After page = [] then fql q' = None
     else \<exists>query. fqlFn ''Set.paginate(${after})'' [(''after'', AString (After page))] =
            Inr query \<and> fql q' = Some query"
proof -
  have "\<exists>page0. finishPage fqlFn q page0 = Return (q', Inr page)"
    using assms
    by (auto simp: Next_def split: sum.splits any.splits option.splits)
  then obtain page0 where f: "finishPage fqlFn q page0 = Return (q', Inr page)"
    by blast
  from finishPage_page[OF f] show ?thesis by simp
qed

text \<open>
  Claim C9: when \<open>Next\<close> returns a page with an empty cursor, the iterator's query is
  cleared and \<open>HasNext\<close> is false; when it returns a page with a cursor, the iterator's
  query is the one that \<open>FQL\<close> built from the template \<^verbatim>\<open>Set.paginate(${after})\<close> with the
  cursor as the argument \<open>after\<close>, and \<open>HasNext\<close> is true. Against a client that answers
  with pages of cursors \<open>a\<close>, \<open>b\<close> and none, \<open>HasNext\<close> is true before each of three calls
  of \<open>Next\<close> and false after the third.
\<close>

theorem Next_follows_cursor:
  "(Next fqlFn clientQuery q = Return (q', Inr page) \<longrightarrow>
      (After page = [] \<longrightarrow> fql q' = None \<and> \<not> HasNext q') \<and>
      (After page \<noteq> [] \<longrightarrow>
         (\<exists>query. fqlFn ''Set.paginate(${after})'' [(''after'', AString (After page))] =
                     Inr query \<and> fql q' = Some query) \<and>
         HasNext q')) \<and>
   HasNext (Paginate (Some first_query)) \<and>
   Next FQL three_pages (Paginate (Some first_query)) =
     Return (\<lparr>fql = Some (paginate_query ''a'')\<rparr>, Inr \<lparr>After = ''a'', Data = [AOther 1]\<rparr>) \<and>
   HasNext \<lparr>fql = Some (paginate_query ''a'')\<rparr> \<and>
   Next FQL three_pages \<lparr>fql = Some (paginate_query ''a'')\<rparr> =
     Return (\<lparr>fql = Some (paginate_query ''b'')\<rparr>, Inr \<lparr>After = ''b'', Data = [AOther 2]\<rparr>) \<and>
   HasNext \<lparr>fql = Some (paginate_query ''b'')\<rparr> \<and>
   Next FQL three_pages \<lparr>fql = Some (paginate_query ''b'')\<rparr> =
     Return (\<lparr>fql = None\<rparr>, Inr \<lparr>After = [], Data = [AOther 3]\<rparr>) \<and>
   \<not> HasNext \<lparr>fql = None\<rparr>"
proof -
  have general: "Next fqlFn clientQuery q = Return (q', Inr page) \<longrightarrow>
      (After page = [] \<longrightarrow> fql q' = None \<and> \<not> HasNext q') \<and>
      (After page \<noteq> [] \<longrightarrow>
         (\<exists>query. fqlFn ''Set.paginate(${after})'' [(''after'', AString (After page))] =
                     Inr query \<and> fql q' = Some query) \<and>
         HasNext q')"
    using Next_page[of fqlFn clientQuery q q' page]
    by (auto simp: HasNext_def)
  have ne: "first_query \<noteq> paginate_query ''a''" "first_query \<noteq> paginate_query ''b''"
    "paginate_query ''a'' \<noteq> paginate_query ''b''" "paginate_query ''a'' \<noteq> first_query"
    "paginate_query ''b'' \<noteq> first_query" "paginate_query ''b'' \<noteq> paginate_query ''a''"
    by (simp_all add: first_query_def paginate_query_def)
  have n1: "Next FQL three_pages (Paginate (Some first_query)) =
     Return (\<lparr>fql = Some (paginate_query ''a'')\<rparr>, Inr \<lparr>After = ''a'', Data = [AOther 1]\<rparr>)"
    by (simp add: Next_def three_pages_def Paginate_def finishPage_FQL)
  have n2: "Next FQL three_pages \<lparr>fql = Some (paginate_query ''a'')\<rparr> =
     Return (\<lparr>fql = Some (paginate_query ''b'')\<rparr>, Inr \<lparr>After = ''b'', Data = [AOther 2]\<rparr>)"
    by (simp add: Next_def three_pages_def finishPage_FQL ne)
  have n3: "Next FQL three_pages \<lparr>fql = Some (paginate_query ''b'')\<rparr> =
     Return (\<lparr>fql = None\<rparr>, Inr \<lparr>After = [], Data = [AOther 3]\<rparr>)"
    by (simp add: Next_def three_pages_def finishPage_FQL ne)
  show ?thesis
    using general n1 n2 n3 by (simp add: HasNext_def Paginate_def)
qed

theorem Next_follows_cursor_witness:
  "Next FQL three_pages \<lparr>fql = Some (paginate_query ''a'')\<rparr> =
     Return (\<lparr>fql = Some (paginate_query ''b'')\<rparr>, Inr \<lparr>After = ''b'', Data = [AOther 2]\<rparr>) \<and>
   After \<lparr>After = ''b'', Data = [AOther 2]\<rparr> \<noteq> [] \<and>
   HasNext \<lparr>fql = Some (paginate_query ''b'')\<rparr> \<and>
   Next FQL three_pages \<lparr>fql = Some (paginate_query ''b'')\<rparr> =
     Return (\<lparr>fql = None\<rparr>, Inr \<lparr>After = [], Data = [AOther 3]\<rparr>) \<and>
   After \<lparr>After = [], Data = [AOther 3]\<rparr> = [] \<and>
   \<not> HasNext \<lparr>fql = None\<rparr>"
  using Next_follows_cursor[of FQL three_pages "\<lparr>fql = Some (paginate_query ''a'')\<rparr>"
          "\<lparr>fql = Some (paginate_query ''b'')\<rparr>" "\<lparr>After = ''b'', Data = [AOther 2]\<rparr>"]
        Next_follows_cursor[of FQL three_pages "\<lparr>fql = Some (paginate_query ''b'')\<rparr>"
          "\<lparr>fql = None\<rparr>" "\<lparr>After = [], Data = [AOther 3]\<rparr>"]
  by simp

text \<open>
  Claim C10: when the query succeeds with a \<open>map[string]any\<close>, \<open>Next\<close> panics exactly when
  the map has no \<open>[]any\<close> under the key \<open>data\<close>; otherwise it returns.
\<close>

theorem Next_panics_without_data_sequence:
  "clientQuery (fql q) = Inr (AMap results) \<Longrightarrow>
     (Next fqlFn clientQuery q = Panic) =
       (\<forall>items. map_of results ''data'' \<noteq> Some (ASeq items))"
  by (auto simp: Next_def finishPage_not_Panic split: option.splits any.splits)

theorem Next_panics_without_data_sequence_witness:
  "Next FQL (\<lambda>_. Inr (AMap [(''after'', AString ''a'')])) \<lparr>fql = None\<rparr> = Panic \<and>
   Next FQL (\<lambda>_. Inr (AMap [(''data'', AString ''a'')])) \<lparr>fql = None\<rparr> = Panic \<and>
   Next FQL (\<lambda>_. Inr (AMap [(''data'', ASeq [])])) \<lparr>fql = None\<rparr> \<noteq> Panic"
  using Next_panics_without_data_sequence[of "\<lambda>_. Inr (AMap [(''after'', AString ''a'')])"
          "\<lparr>fql = None\<rparr>" "[(''after'', AString ''a'')]" FQL]
        Next_panics_without_data_sequence[of "\<lambda>_. Inr (AMap [(''data'', AString ''a'')])"
          "\<lparr>fql = None\<rparr>" "[(''data'', AString ''a'')]" FQL]
        Next_panics_without_data_sequence[of "\<lambda>_. Inr (AMap [(''data'', ASeq [])])"
          "\<lparr>fql = None\<rparr>" "[(''data'', ASeq [])]" FQL]
  by simp

end
